theory Spec2Isabelle
  imports Complex_Main "HOL-Library.Word"
begin

unbundle bit_operations_syntax

section \<open>Machine integers of \<^verbatim>\<open>pi_monte_carlo.cpp\<close>\<close>

type_synonym u32 = "32 word"
type_synonym u64 = "64 word"

section \<open>The generator: \<^verbatim>\<open>struct RNG\<close>\<close>

text \<open>
  \<^verbatim>\<open>struct RNG { uint32_t s; ... }\<close>: one 32-bit unsigned field.  A member function
  that mutates \<^verbatim>\<open>s\<close> takes the engine and returns its result together with the
  updated engine.
\<close>

record RNG =
  s :: u32

text \<open>
  The constructor \<^verbatim>\<open>RNG(uint32_t seed=123456789u)\<close>:
  \<^verbatim>\<open>if(seed==0) seed=2463534242u; s = seed;\<close>
\<close>

definition RNG_init :: "u32 \<Rightarrow> RNG" where
  "RNG_init seed =
     (let seed = (if seed = 0 then 2463534242 else seed)
      in \<lparr> s = seed \<rparr>)"

text \<open>
  \<^verbatim>\<open>next_u32\<close>: \<^verbatim>\<open>x = s; x ^= x << 13; x ^= x >> 17; x ^= x << 5; return s = x;\<close>
  All operands are \<^verbatim>\<open>uint32_t\<close>, so the left shifts drop the bits above bit 31.
\<close>

definition next_u32 :: "RNG \<Rightarrow> u32 \<times> RNG" where
  "next_u32 rng =
     (let x = s rng;
          x = x XOR push_bit 13 x;
          x = x XOR drop_bit 17 x;
          x = x XOR push_bit 5 x
      in (x, rng\<lparr>s := x\<rparr>))"

text \<open>
  \<^verbatim>\<open>next_double\<close>:
  \<^verbatim>\<open>hi = next_u32() >> 6; lo = next_u32() >> 5; val = (hi << 27) | lo;\<close>
  \<^verbatim>\<open>return (double)val / (double)((uint64_t)1 << 53);\<close>
  The shifts \<^verbatim>\<open>>> 6\<close> and \<^verbatim>\<open>>> 5\<close> are done on the 32-bit draw, which is then widened
  to 64 bits.  \<open>next_double_val\<close> is the 64-bit integer \<^verbatim>\<open>val\<close>; \<open>next_double\<close> is
  the quotient.  The quotient is a HOL real: an integer below \<open>2 ^ 53\<close> converts to a
  double without rounding and a division by a power of two only changes the exponent,
  so the double returned by the code has exactly this value whenever \<open>val < 2 ^ 53\<close>.
\<close>

definition next_double_val :: "RNG \<Rightarrow> u64 \<times> RNG" where
  "next_double_val rng =
     (let (a, rng) = next_u32 rng;
          hi = (ucast (drop_bit 6 a) :: u64);
          (b, rng) = next_u32 rng;
          lo = (ucast (drop_bit 5 b) :: u64);
          val = push_bit 27 hi OR lo
      in (val, rng))"

definition next_double :: "RNG \<Rightarrow> real \<times> RNG" where
  "next_double rng =
     (let (val, rng) = next_double_val rng
      in (real (unat val) / real (unat (push_bit 53 (1 :: u64))), rng))"

text \<open>The state reached after \<open>n\<close> calls of \<^verbatim>\<open>next_u32\<close>.\<close>

definition advance :: "nat \<Rightarrow> RNG \<Rightarrow> RNG" where
  "advance n rng = ((\<lambda>r. snd (next_u32 r)) ^^ n) rng"

text \<open>
  The transform as the specification words it, on unbounded integers with the wrap-around
  written out: a left shift by \<open>k\<close> multiplies by \<open>2 ^ k\<close> and keeps the low 32 bits, a
  right shift by \<open>k\<close> divides by \<open>2 ^ k\<close>.
\<close>

definition xorshift_spec :: "int \<Rightarrow> int" where
  "xorshift_spec x0 =
     (let x1 = x0 XOR ((x0 * 2 ^ 13) mod 2 ^ 32);
          x2 = x1 XOR (x1 div 2 ^ 17);
          x3 = x2 XOR ((x2 * 2 ^ 5) mod 2 ^ 32)
      in x3)"

section \<open>Method 1: \<^verbatim>\<open>circle_count_uint\<close>\<close>

text \<open>\<^verbatim>\<open>const uint32_t MAX = 0xFFFFFFFFu;\<close> (\<open>MAX\<close> is taken in HOL, hence the suffix.)\<close>

definition MAX_u32 :: u32 where
  "MAX_u32 = 0xFFFFFFFF"

text \<open>
  The membership test of one trial:
  \<^verbatim>\<open>xx = (uint64_t)x * (uint64_t)x; yy = (uint64_t)y * (uint64_t)y;\<close>
  \<^verbatim>\<open>max2 = (uint64_t)MAX * (uint64_t)MAX; if (xx + yy <= max2) ++hits;\<close>
  Products and sum are \<^verbatim>\<open>uint64_t\<close> operations: they wrap modulo \<open>2 ^ 64\<close>.
\<close>

definition circle_test :: "u32 \<Rightarrow> u32 \<Rightarrow> bool" where
  "circle_test x y =
     (let xx = (ucast x :: u64) * (ucast x :: u64);
          yy = (ucast y :: u64) * (ucast y :: u64);
          max2 = (ucast MAX_u32 :: u64) * (ucast MAX_u32 :: u64)
      in xx + yy \<le> max2)"

text \<open>
  \<^verbatim>\<open>for(uint32_t i=0; i<trials; i++)\<close> with the body drawing \<^verbatim>\<open>x\<close> and \<^verbatim>\<open>y\<close>.
  The counter \<^verbatim>\<open>hits\<close> is a \<^verbatim>\<open>uint64_t\<close>.
\<close>

function circle_loop :: "u32 \<Rightarrow> u32 \<Rightarrow> u64 \<Rightarrow> RNG \<Rightarrow> u64 \<times> RNG" where
  "circle_loop i trials hits rng =
     (if i < trials then
        let (x, rng) = next_u32 rng;
            (y, rng) = next_u32 rng;
            hits = (if circle_test x y then hits + 1 else hits)
        in circle_loop (i + 1) trials hits rng
      else (hits, rng))"
  by pat_completeness auto
termination
proof (relation "measure (\<lambda>(i, trials, hits, rng). unat trials - unat i)")
  show "wf (measure (\<lambda>(i, trials, hits, rng). unat trials - unat i))"
    by simp
next
  fix i trials :: u32 and hits hits' :: u64 and rng rng' :: RNG
  assume "i < trials"
  then have lt: "unat i < unat trials"
    by (simp add: word_less_nat_alt)
  moreover have "unat trials < 2 ^ 32"
    using unsigned_less [of trials] by simp
  ultimately have "unat i + unat (1 :: u32) < 2 ^ LENGTH(32)"
    by simp
  then have "unat (i + 1) = unat i + unat (1 :: u32)"
    by (simp only: unat_add_lem)
  with lt show "((i + 1, trials, hits', rng'), i, trials, hits, rng)
      \<in> measure (\<lambda>(i, trials, hits, rng). unat trials - unat i)"
    by simp
qed

declare circle_loop.simps [simp del]

definition circle_count_uint :: "u32 \<Rightarrow> RNG \<Rightarrow> u64 \<times> RNG" where
  "circle_count_uint trials rng = circle_loop 0 trials 0 rng"

section \<open>Method 2: \<^verbatim>\<open>coprime_count\<close>\<close>

text \<open>
  Modelled from the spec: \<^verbatim>\<open>gcd(a,b)\<close> is \<^verbatim>\<open>std::gcd\<close> of the C++ standard library
  (\<^verbatim>\<open><numeric>\<close>), which is not part of the source file.  The specification says the
  estimator computes the greatest common divisor with the Euclidean algorithm; this is
  that algorithm on \<^verbatim>\<open>uint32_t\<close>.
\<close>

function gcd_u32 :: "u32 \<Rightarrow> u32 \<Rightarrow> u32" where
  "gcd_u32 a b = (if b = 0 then a else gcd_u32 b (a mod b))"
  by pat_completeness auto
termination
proof (relation "measure (\<lambda>(a, b). unat b)")
  show "wf (measure (\<lambda>(a, b). unat b))"
    by simp
next
  fix a b :: u32
  assume "b \<noteq> 0"
  then have "a mod b < b"
    by (simp add: word_mod_less_divisor word_greater_zero_iff)
  then show "((b, a mod b), a, b) \<in> measure (\<lambda>(a, b). unat b)"
    by (simp add: word_less_nat_alt)
qed

declare gcd_u32.simps [simp del]

text \<open>
  The two draws of one trial:
  \<^verbatim>\<open>a = rng.next_u32() | 1u; b = rng.next_u32() | 1u;\<close>
\<close>

definition coprime_draw :: "RNG \<Rightarrow> (u32 \<times> u32) \<times> RNG" where
  "coprime_draw rng =
     (let (x, rng) = next_u32 rng;
          a = x OR 1;
          (y, rng) = next_u32 rng;
          b = y OR 1
      in ((a, b), rng))"

text \<open>
  The loop: \<^verbatim>\<open>if (gcd(a,b) == 1) ++hits;\<close> with \<^verbatim>\<open>hits\<close> a \<^verbatim>\<open>uint32_t\<close>.
\<close>

function coprime_loop :: "u32 \<Rightarrow> u32 \<Rightarrow> u32 \<Rightarrow> RNG \<Rightarrow> u32 \<times> RNG" where
  "coprime_loop i trials hits rng =
     (if i < trials then
        let ((a, b), rng) = coprime_draw rng;
            hits = (if gcd_u32 a b = 1 then hits + 1 else hits)
        in coprime_loop (i + 1) trials hits rng
      else (hits, rng))"
  by pat_completeness auto
termination
proof (relation "measure (\<lambda>(i, trials, hits, rng). unat trials - unat i)")
  show "wf (measure (\<lambda>(i, trials, hits, rng). unat trials - unat i))"
    by simp
next
  fix i trials hits :: u32 and rng rng' :: RNG and hits' :: u32
  assume "i < trials"
  then have lt: "unat i < unat trials"
    by (simp add: word_less_nat_alt)
  moreover have "unat trials < 2 ^ 32"
    using unsigned_less [of trials] by simp
  ultimately have "unat i + unat (1 :: u32) < 2 ^ LENGTH(32)"
    by simp
  then have "unat (i + 1) = unat i + unat (1 :: u32)"
    by (simp only: unat_add_lem)
  with lt show "((i + 1, trials, hits', rng'), i, trials, hits, rng)
      \<in> measure (\<lambda>(i, trials, hits, rng). unat trials - unat i)"
    by simp
qed

declare coprime_loop.simps [simp del]

definition coprime_count :: "u32 \<Rightarrow> RNG \<Rightarrow> u32 \<times> RNG" where
  "coprime_count trials rng = coprime_loop 0 trials 0 rng"

text \<open>The pairs \<open>(a, b)\<close> that \<open>n\<close> consecutive trials test, in order.\<close>

fun tested_pairs :: "nat \<Rightarrow> RNG \<Rightarrow> (u32 \<times> u32) list" where
  "tested_pairs 0 rng = []"
| "tested_pairs (Suc n) rng =
     (let (p, rng) = coprime_draw rng in p # tested_pairs n rng)"

section \<open>Method 3: \<^verbatim>\<open>buffon_count\<close>\<close>

text \<open>
  Each trial draws two doubles and evaluates, in double precision,
  \<^verbatim>\<open>y = u * 0.5; theta = v * (M_PI / 2.0); half_proj = 0.5 * sin(theta);\<close>
  \<^verbatim>\<open>if (y <= half_proj) ++crosses;\<close>
  The outcome is a fixed function of the two draws \<open>u\<close> and \<open>v\<close>.  Its value depends on
  the rounding of \<^verbatim>\<open>sin\<close> and of the products, so the test is the parameter \<open>crossing\<close>
  of the loop, and everything proved below holds for every such test.
  The counter \<^verbatim>\<open>crosses\<close> is a \<^verbatim>\<open>uint32_t\<close>.
\<close>

function buffon_loop ::
    "(real \<Rightarrow> real \<Rightarrow> bool) \<Rightarrow> u32 \<Rightarrow> u32 \<Rightarrow> u32 \<Rightarrow> RNG \<Rightarrow> u32 \<times> RNG" where
  "buffon_loop crossing i trials crosses rng =
     (if i < trials then
        let (u, rng) = next_double rng;
            (v, rng) = next_double rng;
            crosses = (if crossing u v then crosses + 1 else crosses)
        in buffon_loop crossing (i + 1) trials crosses rng
      else (crosses, rng))"
  by pat_completeness auto
termination
proof (relation "measure (\<lambda>(crossing, i, trials, crosses, rng). unat trials - unat i)")
  show "wf (measure (\<lambda>(crossing, i, trials, crosses, rng). unat trials - unat i))"
    by simp
next
  fix i trials hits :: u32 and rng rng' :: RNG and hits' :: u32
    and crossing :: "real \<Rightarrow> real \<Rightarrow> bool"
  assume "i < trials"
  then have lt: "unat i < unat trials"
    by (simp add: word_less_nat_alt)
  moreover have "unat trials < 2 ^ 32"
    using unsigned_less [of trials] by simp
  ultimately have "unat i + unat (1 :: u32) < 2 ^ LENGTH(32)"
    by simp
  then have "unat (i + 1) = unat i + unat (1 :: u32)"
    by (simp only: unat_add_lem)
  with lt show "((crossing, i + 1, trials, hits', rng'), crossing, i, trials, hits, rng)
      \<in> measure (\<lambda>(crossing, i, trials, crosses, rng). unat trials - unat i)"
    by simp
qed

declare buffon_loop.simps [simp del]

definition buffon_count :: "(real \<Rightarrow> real \<Rightarrow> bool) \<Rightarrow> u32 \<Rightarrow> RNG \<Rightarrow> u32 \<times> RNG" where
  "buffon_count crossing trials rng = buffon_loop crossing 0 trials 0 rng"

section \<open>Driving an engine\<close>

text \<open>
  A caller drives an engine by a sequence of calls of its two member functions; the
  outputs are collected in call order.
\<close>

datatype call = NextU32 | NextDouble

datatype reply = OutU32 u32 | OutDouble real

fun drive :: "call list \<Rightarrow> RNG \<Rightarrow> reply list \<times> RNG" where
  "drive [] rng = ([], rng)"
| "drive (NextU32 # cs) rng =
     (let (x, rng) = next_u32 rng; (outs, rng) = drive cs rng in (OutU32 x # outs, rng))"
| "drive (NextDouble # cs) rng =
     (let (d, rng) = next_double rng; (outs, rng) = drive cs rng in (OutDouble d # outs, rng))"

section \<open>Counting without a width\<close>

text \<open>
  The number of successful trials among \<open>n\<close> consecutive ones, as an unbounded natural
  number, together with the engine after the last trial.  A trial takes the engine and
  returns its outcome and the engine it leaves.
\<close>

fun count_trials :: "(RNG \<Rightarrow> bool \<times> RNG) \<Rightarrow> nat \<Rightarrow> RNG \<Rightarrow> nat \<times> RNG" where
  "count_trials trial 0 rng = (0, rng)"
| "count_trials trial (Suc n) rng =
     (let (hit, rng) = trial rng;
          (k, rng) = count_trials trial n rng
      in ((if hit then Suc k else k), rng))"

definition circle_trial :: "RNG \<Rightarrow> bool \<times> RNG" where
  "circle_trial rng =
     (let (x, rng) = next_u32 rng;
          (y, rng) = next_u32 rng
      in (circle_test x y, rng))"

definition coprime_trial :: "RNG \<Rightarrow> bool \<times> RNG" where
  "coprime_trial rng =
     (let ((a, b), rng) = coprime_draw rng
      in (gcd_u32 a b = 1, rng))"

definition buffon_trial :: "(real \<Rightarrow> real \<Rightarrow> bool) \<Rightarrow> RNG \<Rightarrow> bool \<times> RNG" where
  "buffon_trial crossing rng =
     (let (u, rng) = next_double rng;
          (v, rng) = next_double rng
      in (crossing u v, rng))"

section \<open>The membership test in exact arithmetic\<close>

text \<open>
  The test as the specification words it: \<open>x\<^sup>2 + y\<^sup>2 \<le> MAX\<^sup>2\<close> on unbounded integers.
\<close>

definition circle_test_exact :: "u32 \<Rightarrow> u32 \<Rightarrow> bool" where
  "circle_test_exact x y \<longleftrightarrow> (uint x)\<^sup>2 + (uint y)\<^sup>2 \<le> (uint MAX_u32)\<^sup>2"

section \<open>The estimates derived in \<^verbatim>\<open>main\<close>\<close>

text \<open>
  \<^verbatim>\<open>main\<close> turns a count into a probability and an estimate in \<^verbatim>\<open>double\<close> arithmetic.
  A \<^verbatim>\<open>double\<close> is a finite number, an infinity or a NaN.  Finite results carry the exact
  real value (the program rounds them to the nearest double); the results at a count of
  zero, which is what is proved about these functions, involve no rounding.  A zero here
  is always the positive zero: it comes from converting an unsigned integer or from a
  quotient of non-negative values.  A floating-point division by zero and a square root
  do not trap in C++, so the operations are total and have no error result.
\<close>

datatype double = Fin real | PInf | NInf | NaN

text \<open>\<^verbatim>\<open>(double)hits\<close> and \<^verbatim>\<open>(double)n\<close> for \<^verbatim>\<open>uint32_t\<close> operands: exact.\<close>

definition double_of_u32 :: "u32 \<Rightarrow> double" where
  "double_of_u32 w = Fin (real (unat w))"

text \<open>
  The operator \<^verbatim>\<open>/\<close> on doubles: a nonzero finite value over zero is an infinity,
  zero over zero and infinity over infinity are NaN, and NaN propagates.
\<close>

fun ddiv :: "double \<Rightarrow> double \<Rightarrow> double" where
  "ddiv NaN _ = NaN"
| "ddiv _ NaN = NaN"
| "ddiv (Fin a) (Fin b) =
     (if b \<noteq> 0 then Fin (a / b)
      else if a = 0 then NaN
      else if 0 < a then PInf else NInf)"
| "ddiv (Fin a) PInf = Fin 0"
| "ddiv (Fin a) NInf = Fin 0"
| "ddiv PInf (Fin b) = (if 0 \<le> b then PInf else NInf)"
| "ddiv NInf (Fin b) = (if 0 \<le> b then NInf else PInf)"
| "ddiv PInf PInf = NaN"
| "ddiv PInf NInf = NaN"
| "ddiv NInf PInf = NaN"
| "ddiv NInf NInf = NaN"

text \<open>\<^verbatim>\<open>sqrt\<close> of \<^verbatim>\<open><cmath>\<close>: NaN below zero, and the positive infinity is kept.\<close>

fun dsqrt :: "double \<Rightarrow> double" where
  "dsqrt (Fin a) = (if a < 0 then NaN else Fin (sqrt a))"
| "dsqrt PInf = PInf"
| "dsqrt NInf = NaN"
| "dsqrt NaN = NaN"

text \<open>The comparison \<^verbatim>\<open>>\<close>: false whenever an operand is NaN.\<close>

fun dgreater :: "double \<Rightarrow> double \<Rightarrow> bool" where
  "dgreater NaN _ = False"
| "dgreater _ NaN = False"
| "dgreater (Fin a) (Fin b) = (b < a)"
| "dgreater PInf PInf = False"
| "dgreater PInf _ = True"
| "dgreater NInf _ = False"
| "dgreater (Fin a) PInf = False"
| "dgreater (Fin a) NInf = True"

text \<open>
  Method 2 in \<^verbatim>\<open>main\<close>:
  \<^verbatim>\<open>p = (double)hits / (double)n; pi_est = sqrt(6.0 / p);\<close>
\<close>

definition coprime_pi_est :: "u32 \<Rightarrow> u32 \<Rightarrow> double" where
  "coprime_pi_est hits n =
     (let p = ddiv (double_of_u32 hits) (double_of_u32 n);
          pi_est = dsqrt (ddiv (Fin 6) p)
      in pi_est)"

text \<open>
  Method 3 in \<^verbatim>\<open>main\<close>:
  \<^verbatim>\<open>p = (double)crosses / (double)n; pi_est = (p > 0.0) ? (2.0 / p) : 0.0;\<close>
\<close>

definition buffon_pi_est :: "u32 \<Rightarrow> u32 \<Rightarrow> double" where
  "buffon_pi_est crosses n =
     (let p = ddiv (double_of_u32 crosses) (double_of_u32 n);
          pi_est = (if dgreater p (Fin 0) then ddiv (Fin 2) p else Fin 0)
      in pi_est)"

text \<open>\<^verbatim>\<open>vector<uint32_t> Ns = {100u, 1000u, 10000u, 100000u};\<close>\<close>

definition Ns :: "u32 list" where
  "Ns = [100, 1000, 10000, 100000]"

section \<open>Words as numbers\<close>

lemma uint_xor32: "uint ((a::u32) XOR b) = uint a XOR uint b"
  by (simp add: unsigned_xor_eq)

lemma uint_push32: "uint (push_bit k (a::u32)) = (uint a * 2 ^ k) mod 2 ^ 32"
  unfolding unsigned_push_bit_eq by (simp add: take_bit_eq_mod push_bit_eq_mult)

lemma uint_drop32: "uint (drop_bit k (a::u32)) = uint a div 2 ^ k"
proof -
  have "take_bit 32 (uint a) = uint a"
    using uint_bounded [of a] by (simp add: take_bit_int_eq_self)
  then show ?thesis
    unfolding unsigned_drop_bit_eq by (simp add: drop_bit_eq_div)
qed

lemma or_shifted_nat:
  fixes h l :: nat
  assumes "l < 2 ^ k"
  shows "push_bit k h OR l = h * 2 ^ k + l"
proof -
  have l: "take_bit k l = l" using assms by (simp add: take_bit_nat_eq_self)
  have "push_bit k h AND take_bit k l = 0"
    by (auto simp: bit_eq_iff bit_simps)
  then have "push_bit k h AND l = 0" by (simp only: l)
  then have "push_bit k h + l = push_bit k h OR l" by (rule disjunctive_add_eq_or)
  then show ?thesis by (simp add: push_bit_eq_mult)
qed

lemma unat_widen: "unat (ucast (w :: u32) :: u64) = unat w"
proof -
  have "unat w < 2 ^ 64"
    using unsigned_less [of w, where ?'a = nat] by simp
  then show ?thesis
    by (simp add: unsigned_ucast_eq take_bit_nat_eq_self)
qed

lemma unat_drop32: "unat (drop_bit k (a :: u32)) = unat a div 2 ^ k"
proof -
  have "unat (drop_bit k a) = drop_bit k (unat a)" by (rule unat_drop_bit_eq)
  then show ?thesis by (simp only: drop_bit_eq_div)
qed

lemma unat_u32_less: "unat (a :: u32) < 2 ^ 32"
  using unsigned_less [of a, where ?'a = nat] by simp

section \<open>The loops as counts of trials\<close>

lemma unat_succ_below: "(i::u32) < trials \<Longrightarrow> unat (i + 1) = Suc (unat i)"
proof -
  assume "i < trials"
  then have "unat i < unat trials" by (simp add: word_less_nat_alt)
  moreover have "unat trials < 2 ^ 32" using unsigned_less [of trials] by simp
  ultimately have "unat i + unat (1 :: u32) < 2 ^ LENGTH(32)" by simp
  then have "unat (i + 1) = unat i + unat (1 :: u32)" by (simp only: unat_add_lem)
  then show ?thesis by simp
qed

lemma remaining_step:
  "(i::u32) < trials \<Longrightarrow> unat trials - unat i = Suc (unat trials - unat (i + 1))"
  using unat_succ_below [of i trials] by (simp add: word_less_nat_alt)

lemma remaining_done: "\<not> (i::u32) < trials \<Longrightarrow> unat trials - unat i = 0"
  by (simp add: word_less_nat_alt)

lemma circle_loop_count:
  "circle_loop i trials hits rng =
     (hits + of_nat (fst (count_trials circle_trial (unat trials - unat i) rng)),
      snd (count_trials circle_trial (unat trials - unat i) rng))"
proof (induction i trials hits rng rule: circle_loop.induct)
  case (1 i trials hits rng)
  show ?case
  proof (cases "i < trials")
    case True
    obtain x r1 where x: "next_u32 rng = (x, r1)" by (cases "next_u32 rng")
    obtain y r2 where y: "next_u32 r1 = (y, r2)" by (cases "next_u32 r1")
    let ?h = "if circle_test x y then hits + 1 else hits"
    have IH: "circle_loop (i + 1) trials ?h r2 =
        (?h + of_nat (fst (count_trials circle_trial (unat trials - unat (i + 1)) r2)),
         snd (count_trials circle_trial (unat trials - unat (i + 1)) r2))"
      using "1.IH" [OF True x [symmetric] refl y [symmetric] refl refl] .
    have tr: "circle_trial rng = (circle_test x y, r2)"
      by (simp add: circle_trial_def x y)
    have "circle_loop i trials hits rng = circle_loop (i + 1) trials ?h r2"
      using True by (subst circle_loop.simps) (simp add: x y)
    then show ?thesis
      unfolding IH remaining_step [OF True]
      by (simp add: tr split: prod.split)
  next
    case False
    then show ?thesis
      by (subst circle_loop.simps) (simp add: remaining_done)
  qed
qed

lemma coprime_loop_count:
  "coprime_loop i trials hits rng =
     (hits + of_nat (fst (count_trials coprime_trial (unat trials - unat i) rng)),
      snd (count_trials coprime_trial (unat trials - unat i) rng))"
proof (induction i trials hits rng rule: coprime_loop.induct)
  case (1 i trials hits rng)
  show ?case
  proof (cases "i < trials")
    case True
    obtain a b r1 where d: "coprime_draw rng = ((a, b), r1)"
      by (cases "coprime_draw rng") auto
    let ?h = "if gcd_u32 a b = 1 then hits + 1 else hits"
    have IH: "coprime_loop (i + 1) trials ?h r1 =
        (?h + of_nat (fst (count_trials coprime_trial (unat trials - unat (i + 1)) r1)),
         snd (count_trials coprime_trial (unat trials - unat (i + 1)) r1))"
      using "1.IH" [OF True d [symmetric] refl refl refl] .
    have tr: "coprime_trial rng = (gcd_u32 a b = 1, r1)"
      by (simp add: coprime_trial_def d)
    have "coprime_loop i trials hits rng = coprime_loop (i + 1) trials ?h r1"
      using True by (subst coprime_loop.simps) (simp add: d)
    then show ?thesis
      unfolding IH remaining_step [OF True]
      by (simp add: tr split: prod.split)
  next
    case False
    then show ?thesis
      by (subst coprime_loop.simps) (simp add: remaining_done)
  qed
qed

lemma buffon_loop_count:
  "buffon_loop crossing i trials hits rng =
     (hits + of_nat (fst (count_trials (buffon_trial crossing) (unat trials - unat i) rng)),
      snd (count_trials (buffon_trial crossing) (unat trials - unat i) rng))"
proof (induction crossing i trials hits rng rule: buffon_loop.induct)
  case (1 crossing i trials hits rng)
  show ?case
  proof (cases "i < trials")
    case True
    obtain u r1 where u: "next_double rng = (u, r1)" by (cases "next_double rng")
    obtain v r2 where v: "next_double r1 = (v, r2)" by (cases "next_double r1")
    let ?h = "if crossing u v then hits + 1 else hits"
    have IH: "buffon_loop crossing (i + 1) trials ?h r2 =
        (?h + of_nat (fst (count_trials (buffon_trial crossing) (unat trials - unat (i + 1)) r2)),
         snd (count_trials (buffon_trial crossing) (unat trials - unat (i + 1)) r2))"
      using "1.IH" [OF True u [symmetric] refl v [symmetric] refl refl] .
    have tr: "buffon_trial crossing rng = (crossing u v, r2)"
      by (simp add: buffon_trial_def u v)
    have "buffon_loop crossing i trials hits rng = buffon_loop crossing (i + 1) trials ?h r2"
      using True by (subst buffon_loop.simps) (simp add: u v)
    then show ?thesis
      unfolding IH remaining_step [OF True]
      by (simp add: tr split: prod.split)
  next
    case False
    then show ?thesis
      by (subst buffon_loop.simps) (simp add: remaining_done)
  qed
qed

lemma count_trials_Suc_fst:
  "fst (count_trials trial (Suc n) rng) =
     (if fst (trial rng) then Suc (fst (count_trials trial n (snd (trial rng))))
      else fst (count_trials trial n (snd (trial rng))))"
  by (simp split: prod.split)

lemma count_trials_Suc_snd:
  "snd (count_trials trial (Suc n) rng) = snd (count_trials trial n (snd (trial rng)))"
  by (simp split: prod.split)

lemma count_trials_le: "fst (count_trials trial n rng) \<le> n"
proof (induction n arbitrary: rng)
  case 0
  show ?case by simp
next
  case (Suc n)
  from Suc [of "snd (trial rng)"] show ?case
    by (simp only: count_trials_Suc_fst split: if_split) simp
qed

lemma count_trials_add:
  "count_trials trial (m + k) rng =
     (fst (count_trials trial m rng) + fst (count_trials trial k (snd (count_trials trial m rng))),
      snd (count_trials trial k (snd (count_trials trial m rng))))"
proof (induction m arbitrary: rng)
  case 0
  show ?case by simp
next
  case (Suc m)
  have "count_trials trial (Suc m + k) rng =
      (fst (count_trials trial (Suc (m + k)) rng), snd (count_trials trial (Suc (m + k)) rng))"
    by simp
  also have "\<dots> = (fst (count_trials trial (Suc m) rng)
        + fst (count_trials trial k (snd (count_trials trial (Suc m) rng))),
      snd (count_trials trial k (snd (count_trials trial (Suc m) rng))))"
    by (simp only: count_trials_Suc_fst count_trials_Suc_snd Suc [of "snd (trial rng)"] fst_conv snd_conv)
      simp
  finally show ?case .
qed

lemma advance_Suc: "advance (Suc n) rng = advance n (snd (next_u32 rng))"
  unfolding advance_def by (simp only: funpow_Suc_right o_apply)

lemma advance_add: "advance (m + n) rng = advance n (advance m rng)"
proof -
  have "advance (n + m) rng = advance n (advance m rng)"
    unfolding advance_def by (simp only: funpow_add o_apply)
  then show ?thesis by (simp only: add.commute [of m n])
qed

lemma count_trials_state:
  assumes "\<And>r. snd (trial r) = advance k r"
  shows "snd (count_trials trial n rng) = advance (k * n) rng"
proof (induction n arbitrary: rng)
  case 0
  show ?case by (simp add: advance_def)
next
  case (Suc n)
  have "snd (count_trials trial (Suc n) rng) = snd (count_trials trial n (snd (trial rng)))"
    by (simp split: prod.split)
  also have "\<dots> = advance (k * n) (advance k rng)"
    by (simp only: Suc assms)
  also have "\<dots> = advance (k * Suc n) rng"
    by (simp add: advance_add [symmetric])
  finally show ?case .
qed

lemma advance_2: "advance 2 r = snd (next_u32 (snd (next_u32 r)))"
  by (simp add: advance_def numeral_2_eq_2)

lemma circle_trial_state: "snd (circle_trial r) = advance 2 r"
  by (simp add: circle_trial_def advance_2 split: prod.split)

lemma coprime_draw_state: "snd (coprime_draw r) = advance 2 r"
  by (simp add: coprime_draw_def advance_2 Let_def split: prod.split)

lemma coprime_trial_state: "snd (coprime_trial r) = advance 2 r"
  by (simp add: coprime_trial_def case_prod_beta coprime_draw_state)

lemma next_double_val_state: "snd (next_double_val r) = advance 2 r"
  by (simp add: next_double_val_def advance_2 Let_def split: prod.split)

lemma next_double_state: "snd (next_double r) = advance 2 r"
  by (simp add: next_double_def case_prod_beta next_double_val_state)

lemma buffon_trial_state: "snd (buffon_trial crossing r) = advance 4 r"
proof -
  have "snd (buffon_trial crossing r) = snd (next_double (snd (next_double r)))"
    by (simp add: buffon_trial_def split: prod.split)
  also have "\<dots> = advance 2 (advance 2 r)"
    by (simp only: next_double_state)
  also have "\<dots> = advance 4 r"
    by (simp add: advance_add [symmetric])
  finally show ?thesis .
qed

lemma count_fits_u32:
  "unat (of_nat (fst (count_trials trial (unat (trials :: u32)) rng)) :: u32)
     = fst (count_trials trial (unat trials) rng)"
proof -
  have "fst (count_trials trial (unat trials) rng) \<le> unat trials" by (rule count_trials_le)
  also have "\<dots> < 2 ^ 32" by (rule unat_u32_less)
  finally show ?thesis by (simp add: unat_of_nat)
qed

lemma count_fits_u64:
  "unat (of_nat (fst (count_trials trial (unat (trials :: u32)) rng)) :: u64)
     = fst (count_trials trial (unat trials) rng)"
proof -
  have "fst (count_trials trial (unat trials) rng) \<le> unat trials" by (rule count_trials_le)
  also have "\<dots> < 2 ^ 32" by (rule unat_u32_less)
  finally show ?thesis by (simp add: unat_of_nat)
qed

lemma circle_count_unat:
  "unat (fst (circle_count_uint trials rng)) = fst (count_trials circle_trial (unat trials) rng)"
  by (simp add: circle_count_uint_def circle_loop_count count_fits_u64)

lemma coprime_count_unat:
  "unat (fst (coprime_count trials rng)) = fst (count_trials coprime_trial (unat trials) rng)"
  by (simp add: coprime_count_def coprime_loop_count count_fits_u32)

lemma buffon_count_unat:
  "unat (fst (buffon_count crossing trials rng))
     = fst (count_trials (buffon_trial crossing) (unat trials) rng)"
  by (simp add: buffon_count_def buffon_loop_count count_fits_u32)

section \<open>The transform never reaches zero\<close>

lemma xor_zero_eq:
  fixes a b :: "'a::len word"
  assumes "a XOR b = 0"
  shows "a = b"
proof -
  have "a = (a XOR b) XOR b" by (simp add: xor.assoc)
  with assms show ?thesis by simp
qed

lemma push_bit_fix_zero:
  fixes x :: "'a::len word"
  assumes "x = push_bit k x" and "0 < k"
  shows "x = 0"
proof -
  have "x = push_bit (n * k) x" for n
  proof (induction n)
    case 0 show ?case by simp
  next
    case (Suc n)
    have "push_bit (Suc n * k) x = push_bit (n * k) (push_bit k x)"
      by (simp add: push_bit_push_bit add.commute)
    with Suc assms(1) show ?case by simp
  qed
  then have "x = push_bit (LENGTH('a) * k) x" .
  moreover have "LENGTH('a) \<le> LENGTH('a) * k" using assms(2) by simp
  ultimately show ?thesis
    by (metis push_bit_word_beyond)
qed

lemma drop_bit_fix_zero:
  fixes x :: "'a::len word"
  assumes "x = drop_bit k x" and "0 < k"
  shows "x = 0"
proof -
  have "x = drop_bit (n * k) x" for n
  proof (induction n)
    case 0 show ?case by simp
  next
    case (Suc n)
    have "drop_bit (Suc n * k) x = drop_bit (n * k) (drop_bit k x)"
      by (simp add: drop_bit_drop_bit add.commute)
    with Suc assms(1) show ?case by simp
  qed
  then have "x = drop_bit (LENGTH('a) * k) x" .
  moreover have "LENGTH('a) \<le> LENGTH('a) * k" using assms(2) by simp
  ultimately show ?thesis
    by (metis drop_bit_word_beyond)
qed

lemma next_u32_nonzero: "s rng \<noteq> 0 \<Longrightarrow> s (snd (next_u32 rng)) \<noteq> 0"
proof -
  assume nz: "s rng \<noteq> 0"
  define x1 where "x1 = s rng XOR push_bit 13 (s rng)"
  define x2 where "x2 = x1 XOR drop_bit 17 x1"
  define x3 where "x3 = x2 XOR push_bit 5 x2"
  have "x1 \<noteq> 0"
  proof
    assume "x1 = 0"
    then have "s rng = push_bit 13 (s rng)"
      unfolding x1_def by (rule xor_zero_eq)
    then have "s rng = 0" by (rule push_bit_fix_zero) simp
    with nz show False by simp
  qed
  have "x2 \<noteq> 0"
  proof
    assume "x2 = 0"
    then have "x1 = drop_bit 17 x1"
      unfolding x2_def by (rule xor_zero_eq)
    then have "x1 = 0" by (rule drop_bit_fix_zero) simp
    with \<open>x1 \<noteq> 0\<close> show False by simp
  qed
  have "x3 \<noteq> 0"
  proof
    assume "x3 = 0"
    then have "x2 = push_bit 5 x2"
      unfolding x3_def by (rule xor_zero_eq)
    then have "x2 = 0" by (rule push_bit_fix_zero) simp
    with \<open>x2 \<noteq> 0\<close> show False by simp
  qed
  moreover have "s (snd (next_u32 rng)) = x3"
    by (simp add: next_u32_def Let_def x1_def x2_def x3_def)
  ultimately show ?thesis by simp
qed

lemma advance_nonzero: "s rng \<noteq> 0 \<Longrightarrow> s (advance n rng) \<noteq> 0"
proof (induction n arbitrary: rng)
  case 0 then show ?case by (simp add: advance_def)
next
  case (Suc n)
  from Suc.prems have "s (snd (next_u32 rng)) \<noteq> 0" by (rule next_u32_nonzero)
  then have "s (advance n (snd (next_u32 rng))) \<noteq> 0" by (rule Suc.IH)
  then show ?case by (simp add: advance_Suc)
qed

section \<open>Euclid on words\<close>

lemma gcd_u32_correct: "unat (gcd_u32 a b) = gcd (unat a) (unat b)"
proof (induction a b rule: gcd_u32.induct)
  case (1 a b)
  show ?case
  proof (cases "b = 0")
    case True
    then show ?thesis by (subst gcd_u32.simps) simp
  next
    case False
    have "unat (gcd_u32 a b) = unat (gcd_u32 b (a mod b))"
      using False by (subst gcd_u32.simps) simp
    also have "\<dots> = gcd (unat b) (unat a mod unat b)"
      by (simp only: "1.IH" [OF False] unat_mod)
    also have "\<dots> = gcd (unat a) (unat b)"
      by (metis gcd.commute gcd_red_nat)
    finally show ?thesis .
  qed
qed

lemma gcd_u32_one: "gcd_u32 a b = 1 \<longleftrightarrow> gcd (unat a) (unat b) = 1"
proof -
  have "gcd_u32 a b = 1 \<longleftrightarrow> unat (gcd_u32 a b) = 1"
    by (simp add: word_unat_eq_iff)
  then show ?thesis by (simp only: gcd_u32_correct)
qed

section \<open>The double draw\<close>

lemma next_double_val_unat:
  "unat (fst (next_double_val rng)) =
     (unat (fst (next_u32 rng)) div 2 ^ 6) * 2 ^ 27
       + unat (fst (next_u32 (snd (next_u32 rng)))) div 2 ^ 5"
proof -
  define a where "a = fst (next_u32 rng)"
  define b where "b = fst (next_u32 (snd (next_u32 rng)))"
  define h where "h = unat a div 2 ^ 6"
  define l where "l = unat b div 2 ^ 5"
  have hi: "unat (ucast (drop_bit 6 a) :: u64) = h"
    by (simp only: unat_widen unat_drop32 h_def)
  have lo: "unat (ucast (drop_bit 5 b) :: u64) = l"
    by (simp only: unat_widen unat_drop32 l_def)
  have hb: "h < 2 ^ 26" using unat_u32_less [of a] by (simp add: h_def)
  have lb: "l < 2 ^ 27" using unat_u32_less [of b] by (simp add: l_def)
  have "push_bit 27 h < (2 :: nat) ^ 64" using hb by (simp add: push_bit_eq_mult)
  then have sh: "unat (push_bit 27 (ucast (drop_bit 6 a) :: u64)) = push_bit 27 h"
    unfolding unsigned_push_bit_eq hi by (simp add: take_bit_nat_eq_self del: push_bit_eq_mult)
  have "fst (next_double_val rng) = push_bit 27 (ucast (drop_bit 6 a) :: u64) OR ucast (drop_bit 5 b)"
    by (simp add: next_double_val_def Let_def case_prod_beta a_def b_def del: push_bit_eq_mult)
  then have "unat (fst (next_double_val rng)) = push_bit 27 h OR l"
    by (simp only: unsigned_or_eq sh lo)
  also have "\<dots> = h * 2 ^ 27 + l" using lb by (rule or_shifted_nat)
  finally show ?thesis by (simp only: h_def l_def a_def b_def)
qed

lemma next_double_val_less: "unat (fst (next_double_val rng)) < 2 ^ 53"
proof -
  have "unat (fst (next_u32 rng)) div 2 ^ 6 < 2 ^ 26"
    using unat_u32_less [of "fst (next_u32 rng)"] by simp
  moreover have "unat (fst (next_u32 (snd (next_u32 rng)))) div 2 ^ 5 < 2 ^ 27"
    using unat_u32_less [of "fst (next_u32 (snd (next_u32 rng)))"] by simp
  ultimately show ?thesis
    unfolding next_double_val_unat by simp
qed

lemma next_double_value:
  "fst (next_double rng) = real (unat (fst (next_double_val rng))) / 2 ^ 53"
proof -
  have "real (unat (push_bit 53 (1 :: u64))) = 2 ^ 53" by simp
  then show ?thesis
    unfolding next_double_def case_prod_beta Let_def fst_conv by (simp only:)
qed

lemma next_double_range: "0 \<le> fst (next_double rng) \<and> fst (next_double rng) < 1"
proof -
  define v where "v = unat (fst (next_double_val rng))"
  have "v < 2 ^ 53" unfolding v_def by (rule next_double_val_less)
  then have "real v < 2 ^ 53"
    by (metis of_nat_less_iff of_nat_numeral of_nat_power)
  moreover have "0 \<le> real v" by simp
  ultimately have "0 \<le> real v / 2 ^ 53 \<and> real v / 2 ^ 53 < 1" by simp
  then show ?thesis unfolding next_double_value v_def .
qed

section \<open>Tested pairs and the membership test\<close>

lemma RNG_eqI: "s r1 = s r2 \<Longrightarrow> r1 = r2" for r1 r2 :: RNG
  by (cases r1, cases r2) simp

lemma coprime_draw_odd:
  "odd (unat (fst (fst (coprime_draw rng)))) \<and> odd (unat (snd (fst (coprime_draw rng))))"
  by (simp add: coprime_draw_def Let_def case_prod_beta unsigned_or_eq even_or_iff)

lemma tested_pairs_Suc:
  "tested_pairs (Suc n) rng = fst (coprime_draw rng) # tested_pairs n (snd (coprime_draw rng))"
  by (simp add: case_prod_beta)

lemma tested_pairs_odd:
  "p \<in> set (tested_pairs n rng) \<Longrightarrow> odd (unat (fst p)) \<and> odd (unat (snd p))"
proof (induction n arbitrary: rng)
  case 0
  then show ?case by simp
next
  case (Suc n)
  from Suc.prems have "p = fst (coprime_draw rng) \<or> p \<in> set (tested_pairs n (snd (coprime_draw rng)))"
    by (simp only: tested_pairs_Suc set_simps insert_iff)
  then show ?case
    using coprime_draw_odd [of rng] Suc.IH by blast
qed

lemma length_tested_pairs: "length (tested_pairs n rng) = n"
  by (induction n arbitrary: rng) (simp_all add: case_prod_beta)

lemma coprime_trial_fst:
  "fst (coprime_trial rng)
     \<longleftrightarrow> gcd (unat (fst (fst (coprime_draw rng)))) (unat (snd (fst (coprime_draw rng)))) = 1"
  by (simp add: coprime_trial_def case_prod_beta gcd_u32_one)

lemma coprime_trial_snd: "snd (coprime_trial rng) = snd (coprime_draw rng)"
  by (simp add: coprime_trial_def case_prod_beta)

lemma coprime_count_pairs:
  "fst (count_trials coprime_trial n rng)
     = length (filter (\<lambda>(a, b). gcd (unat a) (unat b) = 1) (tested_pairs n rng))"
proof (induction n arbitrary: rng)
  case 0
  show ?case by simp
next
  case (Suc n)
  show ?case
    unfolding count_trials_Suc_fst tested_pairs_Suc coprime_trial_snd
      Suc [of "snd (coprime_draw rng)"] coprime_trial_fst
    by (cases "fst (coprime_draw rng)") simp
qed

lemma unat_square_u64: "unat ((ucast (x :: u32) :: u64) * ucast x) = (unat x)\<^sup>2"
proof -
  have "unat x * unat x < 2 ^ 32 * 2 ^ 32"
    using unat_u32_less [of x] by (intro mult_strict_mono) simp_all
  then have "unat (ucast x :: u64) * unat (ucast x :: u64) < 2 ^ LENGTH(64)"
    by (simp add: unat_widen)
  then have "unat ((ucast x :: u64) * ucast x) = unat (ucast x :: u64) * unat (ucast x :: u64)"
    by (simp only: unat_mult_lem)
  then show ?thesis by (simp add: unat_widen power2_eq_square)
qed

lemma circle_test_wraps:
  "circle_test x y \<longleftrightarrow> ((unat x)\<^sup>2 + (unat y)\<^sup>2) mod 2 ^ 64 \<le> (2 ^ 32 - 1)\<^sup>2"
proof -
  have m: "unat ((ucast MAX_u32 :: u64) * ucast MAX_u32) = (2 ^ 32 - 1)\<^sup>2"
    by (simp add: unat_square_u64 MAX_u32_def)
  have "unat ((ucast x :: u64) * ucast x + (ucast y :: u64) * ucast y)
      = ((unat x)\<^sup>2 + (unat y)\<^sup>2) mod 2 ^ 64"
    by (simp add: unat_word_ariths(1) unat_square_u64)
  then show ?thesis
    unfolding circle_test_def Let_def word_le_nat_alt m by simp
qed

section \<open>The first draws from the default seed\<close>

lemma RNG_init_default: "RNG_init 123456789 = \<lparr>s = 123456789\<rparr>"
  by (simp add: RNG_init_def)

lemma draw_1: "next_u32 \<lparr>s = 123456789\<rparr> = (2714967881, \<lparr>s = 2714967881\<rparr>)"
  by (simp add: next_u32_def)
lemma draw_2: "next_u32 \<lparr>s = 2714967881\<rparr> = (2238813396, \<lparr>s = 2238813396\<rparr>)"
  by (simp add: next_u32_def)
lemma draw_3: "next_u32 \<lparr>s = 2238813396\<rparr> = (1250077441, \<lparr>s = 1250077441\<rparr>)"
  by (simp add: next_u32_def)
lemma draw_4: "next_u32 \<lparr>s = 1250077441\<rparr> = (3820100336, \<lparr>s = 3820100336\<rparr>)"
  by (simp add: next_u32_def)
lemma draw_5: "next_u32 \<lparr>s = 3820100336\<rparr> = (3177519686, \<lparr>s = 3177519686\<rparr>)"
  by (simp add: next_u32_def)
lemma draw_6: "next_u32 \<lparr>s = 3177519686\<rparr> = (3684138832, \<lparr>s = 3684138832\<rparr>)"
  by (simp add: next_u32_def)
lemma draw_7: "next_u32 \<lparr>s = 3684138832\<rparr> = (3151087790, \<lparr>s = 3151087790\<rparr>)"
  by (simp add: next_u32_def)
lemma draw_8: "next_u32 \<lparr>s = 3151087790\<rparr> = (3662508108, \<lparr>s = 3662508108\<rparr>)"
  by (simp add: next_u32_def)

lemmas draws = draw_1 draw_2 draw_3 draw_4 draw_5 draw_6 draw_7 draw_8

lemma test_1: "circle_test 2714967881 2238813396"
  by (simp add: circle_test_def MAX_u32_def)
lemma test_2: "circle_test 1250077441 3820100336"
  by (simp add: circle_test_def MAX_u32_def)
lemma test_3: "circle_test 3177519686 3684138832"
  by (simp add: circle_test_def MAX_u32_def)
lemma exact_3: "\<not> circle_test_exact 3177519686 3684138832"
  by (simp add: circle_test_exact_def MAX_u32_def)

lemma advance_4_default: "advance 4 (RNG_init 123456789) = \<lparr>s = 3820100336\<rparr>"
  by (simp add: advance_def eval_nat_numeral RNG_init_default draws)

lemma circle_3: "circle_count_uint 3 (RNG_init 123456789) = (3, \<lparr>s = 3684138832\<rparr>)"
  unfolding circle_count_uint_def RNG_init_default
  apply (subst circle_loop.simps, simp add: draws test_1 test_2 test_3)
  apply (subst circle_loop.simps, simp add: draws test_1 test_2 test_3)
  apply (subst circle_loop.simps, simp add: draws test_1 test_2 test_3)
  apply (subst circle_loop.simps, simp add: draws test_1 test_2 test_3)
  done

lemma cd_1: "coprime_draw \<lparr>s = 123456789\<rparr> = ((2714967881, 2238813397), \<lparr>s = 2238813396\<rparr>)"
  by (simp add: coprime_draw_def draws)
lemma cd_2: "coprime_draw \<lparr>s = 2238813396\<rparr> = ((1250077441, 3820100337), \<lparr>s = 3820100336\<rparr>)"
  by (simp add: coprime_draw_def draws)
lemma cd_3: "coprime_draw \<lparr>s = 3820100336\<rparr> = ((3177519687, 3684138833), \<lparr>s = 3684138832\<rparr>)"
  by (simp add: coprime_draw_def draws)
lemma cd_4: "coprime_draw \<lparr>s = 3684138832\<rparr> = ((3151087791, 3662508109), \<lparr>s = 3662508108\<rparr>)"
  by (simp add: coprime_draw_def draws)

lemma g_1: "gcd_u32 2714967881 2238813397 = 1"
  by code_simp
lemma g_2: "gcd_u32 1250077441 3820100337 = 1"
  by code_simp
lemma g_3: "gcd_u32 3177519687 3684138833 = 1"
  by code_simp
lemma g_4: "gcd_u32 3151087791 3662508109 = 23"
  by code_simp

lemma pairs_4: "tested_pairs 4 (RNG_init 123456789) =
        [(2714967881, 2238813397), (1250077441, 3820100337),
         (3177519687, 3684138833), (3151087791, 3662508109)]"
  by (simp add: eval_nat_numeral RNG_init_default cd_1 cd_2 cd_3 cd_4)

lemma coprime_4: "coprime_count 4 (RNG_init 123456789) = (3, \<lparr>s = 3662508108\<rparr>)"
  unfolding coprime_count_def RNG_init_default
  apply (subst coprime_loop.simps, simp add: cd_1 cd_2 cd_3 cd_4 g_1 g_2 g_3 g_4)
  apply (subst coprime_loop.simps, simp add: cd_1 cd_2 cd_3 cd_4 g_1 g_2 g_3 g_4)
  apply (subst coprime_loop.simps, simp add: cd_1 cd_2 cd_3 cd_4 g_1 g_2 g_3 g_4)
  apply (subst coprime_loop.simps, simp add: cd_1 cd_2 cd_3 cd_4 g_1 g_2 g_3 g_4)
  apply (subst coprime_loop.simps, simp add: cd_1 cd_2 cd_3 cd_4 g_1 g_2 g_3 g_4)
  done

section \<open>The estimates at a count of zero\<close>

lemma double_of_u32_0: "double_of_u32 0 = Fin 0"
  by (simp add: double_of_u32_def)

lemma double_of_u32_Fin: "\<exists>r. double_of_u32 n = Fin r \<and> 0 \<le> r \<and> (r = 0 \<longleftrightarrow> n = 0)"
proof -
  have "real (unat n) = 0 \<longleftrightarrow> unat n = 0" by (rule of_nat_eq_0_iff)
  also have "\<dots> \<longleftrightarrow> n = 0" by (rule unat_eq_0)
  finally have "real (unat n) = 0 \<longleftrightarrow> n = 0" .
  moreover have "0 \<le> real (unat n)" by (rule of_nat_0_le_iff)
  ultimately show ?thesis unfolding double_of_u32_def by blast
qed

lemma coprime_pi_est_zero: "coprime_pi_est 0 n = (if n = 0 then NaN else PInf)"
proof -
  obtain r where r: "double_of_u32 n = Fin r" "0 \<le> r" "r = 0 \<longleftrightarrow> n = 0"
    using double_of_u32_Fin [of n] by blast
  show ?thesis
    by (simp add: coprime_pi_est_def double_of_u32_0 r)
qed

lemma buffon_pi_est_zero: "buffon_pi_est 0 n = Fin 0"
proof -
  obtain r where r: "double_of_u32 n = Fin r" "0 \<le> r" "r = 0 \<longleftrightarrow> n = 0"
    using double_of_u32_Fin [of n] by blast
  show ?thesis
    by (simp add: buffon_pi_est_def double_of_u32_0 r)
qed

section \<open>The claims\<close>

text \<open>
  Claim C1.  The estimator is meant to count a trial exactly when \<open>x\<^sup>2 + y\<^sup>2 \<le> MAX\<^sup>2\<close>
  holds for the drawn point.  The sum \<^verbatim>\<open>xx + yy\<close> is a 64-bit sum and wraps
  (\<open>circle_test_wraps\<close>).  On the program's own seed 123456789 the third trial draws
  \<open>x = 3177519686\<close> and \<open>y = 3684138832\<close>: the point lies outside the quarter circle, the
  wrapped sum is below \<open>MAX\<^sup>2\<close>, the trial is counted, and three trials return three hits.
\<close>

theorem circle_test_overflow_counts_outside_point:
  "circle_count_uint 3 (RNG_init 123456789) = (3, \<lparr>s = 3684138832\<rparr>)
   \<and> next_u32 (advance 4 (RNG_init 123456789)) = (3177519686, \<lparr>s = 3177519686\<rparr>)
   \<and> next_u32 \<lparr>s = 3177519686\<rparr> = (3684138832, \<lparr>s = 3684138832\<rparr>)
   \<and> circle_test 3177519686 3684138832
   \<and> \<not> circle_test_exact 3177519686 3684138832"
  by (simp only: circle_3 advance_4_default draw_5 draw_6 test_3 exact_3) simp

text \<open>
  Claim C2.  For every engine, \<open>next_u32\<close> returns the three-step transform of the state
  (exclusive or with the state shifted left by 13, then right by 17, then left by 5, each
  left shift keeping the low 32 bits), and the state it leaves is the value it returns.
\<close>

theorem next_u32_is_xorshift:
  "uint (fst (next_u32 rng)) = xorshift_spec (uint (s rng))
   \<and> s (snd (next_u32 rng)) = fst (next_u32 rng)"
  unfolding next_u32_def xorshift_spec_def Let_def
  by (simp only: fst_conv snd_conv uint_xor32 uint_push32 uint_drop32) simp

text \<open>
  Claim C3.  A nonzero seed becomes the state as it is, the seed zero becomes
  2463534242, and after any number \<open>n\<close> of calls of \<open>next_u32\<close> on a constructed engine
  the state is not zero.
\<close>

theorem RNG_state_never_zero:
  "(v \<noteq> 0 \<longrightarrow> s (RNG_init v) = v)
   \<and> s (RNG_init 0) = 2463534242
   \<and> s (advance n (RNG_init v)) \<noteq> 0"
proof -
  have "s (RNG_init v) \<noteq> 0" by (simp add: RNG_init_def)
  then have "s (advance n (RNG_init v)) \<noteq> 0" by (rule advance_nonzero)
  then show ?thesis by (simp add: RNG_init_def)
qed

theorem RNG_state_never_zero_witness:
  "(123456789 :: u32) \<noteq> 0 \<and> s (RNG_init 123456789) = 123456789
   \<and> s (advance 2 (RNG_init 123456789)) \<noteq> 0"
  using RNG_state_never_zero [of 123456789 2] by simp

text \<open>
  Claim C4.  For every engine state, \<open>next_double\<close> makes two draws (it leaves the engine
  two steps further), the integer it builds is the first draw without its low 6 bits,
  times \<open>2 ^ 27\<close>, plus the second draw without its low 5 bits; that integer is below
  \<open>2 ^ 53\<close>, the result is the integer divided by \<open>2 ^ 53\<close>, and it lies in \<open>[0, 1)\<close>.
\<close>

theorem next_double_unit_interval:
  "snd (next_double rng) = advance 2 rng
  \<and> unat (fst (next_double_val rng)) =
       (unat (fst (next_u32 rng)) div 2 ^ 6) * 2 ^ 27
         + unat (fst (next_u32 (advance 1 rng))) div 2 ^ 5
  \<and> unat (fst (next_double_val rng)) < 2 ^ 53
  \<and> fst (next_double rng) = real (unat (fst (next_double_val rng))) / 2 ^ 53
  \<and> 0 \<le> fst (next_double rng) \<and> fst (next_double rng) < 1"
proof -
  have a1: "advance 1 rng = snd (next_u32 rng)" by (simp add: advance_def)
  show ?thesis
    unfolding a1
    using next_double_state [of rng] next_double_val_unat [of rng] next_double_val_less [of rng]
      next_double_value [of rng] next_double_range [of rng]
    by blast
qed

text \<open>
  Claim C5.  For every trial count and engine, both components of every pair the
  coprimality estimator tests are odd, it tests as many pairs as there are trials, and
  the count it returns is the number of tested pairs whose greatest common divisor is 1.
\<close>

theorem coprime_count_counts_coprime_odd_pairs:
  "(\<forall>(a, b) \<in> set (tested_pairs (unat trials) rng). odd (unat a) \<and> odd (unat b))
   \<and> length (tested_pairs (unat trials) rng) = unat trials
   \<and> unat (fst (coprime_count trials rng))
        = length (filter (\<lambda>(a, b). gcd (unat a) (unat b) = 1) (tested_pairs (unat trials) rng))"
proof -
  have "\<forall>(a, b) \<in> set (tested_pairs (unat trials) rng). odd (unat a) \<and> odd (unat b)"
    using tested_pairs_odd [of _ "unat trials" rng] by auto
  then show ?thesis
    by (simp only: length_tested_pairs coprime_count_unat coprime_count_pairs)
qed

theorem coprime_count_counts_coprime_odd_pairs_witness:
  "tested_pairs (unat (4 :: u32)) (RNG_init 123456789) =
        [(2714967881, 2238813397), (1250077441, 3820100337),
         (3177519687, 3684138833), (3151087791, 3662508109)]
   \<and> odd (unat (2714967881 :: u32)) \<and> odd (unat (2238813397 :: u32))
   \<and> odd (unat (1250077441 :: u32)) \<and> odd (unat (3820100337 :: u32))
   \<and> odd (unat (3177519687 :: u32)) \<and> odd (unat (3684138833 :: u32))
   \<and> odd (unat (3151087791 :: u32)) \<and> odd (unat (3662508109 :: u32))
   \<and> unat (fst (coprime_count 4 (RNG_init 123456789))) = 3
   \<and> length (filter (\<lambda>(a, b). gcd (unat a) (unat b) = 1)
         (tested_pairs (unat (4 :: u32)) (RNG_init 123456789))) = 3"
  using coprime_count_counts_coprime_odd_pairs [of 4 "RNG_init 123456789"]
  by (simp add: pairs_4 coprime_4)

text \<open>
  Claim C6, as amended.  With no coprime pair found and a positive trial count, as for
  every trial count of the driver, the estimate \<^verbatim>\<open>sqrt(6.0 / p)\<close> is the positive
  infinity, not a NaN; it is a NaN only when the trial count is zero as well.  With no
  crossing found the needle estimate is \<open>0.0\<close> for every trial count.  The two estimates
  at a count of zero differ, and both are values: nothing is raised.
\<close>

theorem zero_count_estimates:
  "(n \<noteq> 0 \<longrightarrow> coprime_pi_est 0 n = PInf)
   \<and> coprime_pi_est 0 0 = NaN
   \<and> map (coprime_pi_est 0) Ns = [PInf, PInf, PInf, PInf]
   \<and> buffon_pi_est 0 n = Fin 0
   \<and> coprime_pi_est 0 n \<noteq> buffon_pi_est 0 n"
  by (simp add: coprime_pi_est_zero buffon_pi_est_zero Ns_def)

theorem zero_count_estimates_witness:
  "(100 :: u32) \<noteq> 0 \<and> coprime_pi_est 0 100 = PInf \<and> buffon_pi_est 0 100 = Fin 0"
  using zero_count_estimates [of 100] by simp

text \<open>
  Claim C6 as stated fails: for 100 trials without a coprime pair the estimate is the
  positive infinity, which is not a NaN.
\<close>

theorem zero_hits_estimate_not_NaN:
  "coprime_pi_est 0 100 = PInf \<and> coprime_pi_est 0 100 \<noteq> NaN"
  by (simp add: coprime_pi_est_zero)

text \<open>
  Claim C7.  The results of \<open>next_u32\<close> and \<open>next_double\<close> depend on the state field
  only, and two engines constructed from the same seed and driven by the same calls give
  the same outputs and end in the same state.
\<close>

theorem RNG_deterministic:
  "(s r1 = s r2 \<longrightarrow> next_u32 r1 = next_u32 r2 \<and> next_double r1 = next_double r2)
   \<and> (seed1 = seed2 \<and> cs1 = cs2 \<longrightarrow>
        drive cs1 (RNG_init seed1) = drive cs2 (RNG_init seed2))"
  by (auto dest: RNG_eqI)

theorem RNG_deterministic_witness:
  "drive [NextU32, NextDouble] (RNG_init 123456789)
     = drive [NextU32, NextDouble] (RNG_init 123456789)
   \<and> s (RNG_init 0) = s (RNG_init 2463534242)
   \<and> next_u32 (RNG_init 0) = next_u32 (RNG_init 2463534242)"
  using RNG_deterministic [of "RNG_init 0" "RNG_init 2463534242" 123456789 123456789
      "[NextU32, NextDouble]" "[NextU32, NextDouble]"]
  by (simp add: RNG_init_def)

text \<open>
  Claim C8.  For every trial count and engine, and every crossing test, the counter
  each estimator returns equals the number of successful trials counted without a width
  (the 64-bit and 32-bit counters never wrap), and it lies between 0 and the trial count.
\<close>

theorem estimator_counts_bounded:
  "unat (fst (circle_count_uint trials rng)) = fst (count_trials circle_trial (unat trials) rng)
   \<and> unat (fst (coprime_count trials rng)) = fst (count_trials coprime_trial (unat trials) rng)
   \<and> unat (fst (buffon_count crossing trials rng))
        = fst (count_trials (buffon_trial crossing) (unat trials) rng)
   \<and> 0 \<le> fst (circle_count_uint trials rng)
   \<and> unat (fst (circle_count_uint trials rng)) \<le> unat trials
   \<and> 0 \<le> fst (coprime_count trials rng)
   \<and> fst (coprime_count trials rng) \<le> trials
   \<and> 0 \<le> fst (buffon_count crossing trials rng)
   \<and> fst (buffon_count crossing trials rng) \<le> trials"
  by (simp add: word_le_nat_alt circle_count_unat coprime_count_unat buffon_count_unat
      count_trials_le)

text \<open>
  Claim C9.  From the same engine state, the quarter-circle estimator's count for \<open>m\<close>
  trials is at most its count for \<open>n\<close> trials whenever \<open>m \<le> n\<close>, and for no trials the
  count is 0.
\<close>

theorem circle_count_monotone:
  "(m \<le> n \<longrightarrow> fst (circle_count_uint m rng) \<le> fst (circle_count_uint n rng))
   \<and> fst (circle_count_uint 0 rng) = 0"
proof
  show "m \<le> n \<longrightarrow> fst (circle_count_uint m rng) \<le> fst (circle_count_uint n rng)"
  proof
    assume "m \<le> n"
    then have "unat n = unat m + (unat n - unat m)" by (simp add: word_le_nat_alt)
    then have "fst (count_trials circle_trial (unat n) rng)
        = fst (count_trials circle_trial (unat m) rng)
          + fst (count_trials circle_trial (unat n - unat m)
                  (snd (count_trials circle_trial (unat m) rng)))"
      by (metis count_trials_add fst_conv)
    then show "fst (circle_count_uint m rng) \<le> fst (circle_count_uint n rng)"
      by (simp add: word_le_nat_alt circle_count_unat)
  qed
next
  show "fst (circle_count_uint 0 rng) = 0"
    by (simp add: circle_count_uint_def circle_loop.simps)
qed

theorem circle_count_monotone_witness:
  "(2 :: u32) \<le> 3 \<and> fst (circle_count_uint 2 (RNG_init 123456789))
      \<le> fst (circle_count_uint 3 (RNG_init 123456789))"
  using circle_count_monotone [of 2 3 "RNG_init 123456789"] by simp

text \<open>
  Claim C10.  The quarter-circle and the coprimality estimator leave the engine
  \<open>2 * trials\<close> calls of \<open>next_u32\<close> further, the needle estimator \<open>4 * trials\<close> calls
  further (each \<open>next_double\<close> makes two draws), and with no trials each estimator returns
  0 and the engine as it was.
\<close>

theorem estimators_advance_state:
  "snd (circle_count_uint trials rng) = advance (2 * unat trials) rng
   \<and> snd (coprime_count trials rng) = advance (2 * unat trials) rng
   \<and> snd (buffon_count crossing trials rng) = advance (4 * unat trials) rng
   \<and> snd (next_double rng) = advance 2 rng
   \<and> circle_count_uint 0 rng = (0, rng)
   \<and> coprime_count 0 rng = (0, rng)
   \<and> buffon_count crossing 0 rng = (0, rng)"
proof -
  have "snd (circle_count_uint trials rng) = advance (2 * unat trials) rng"
    by (simp add: circle_count_uint_def circle_loop_count
        count_trials_state [of circle_trial 2, OF circle_trial_state])
  moreover have "snd (coprime_count trials rng) = advance (2 * unat trials) rng"
    by (simp add: coprime_count_def coprime_loop_count
        count_trials_state [of coprime_trial 2, OF coprime_trial_state])
  moreover have "snd (buffon_count crossing trials rng) = advance (4 * unat trials) rng"
    by (simp add: buffon_count_def buffon_loop_count
        count_trials_state [of "buffon_trial crossing" 4, OF buffon_trial_state])
  moreover have "circle_count_uint 0 rng = (0, rng)"
    by (simp add: circle_count_uint_def circle_loop.simps)
  moreover have "coprime_count 0 rng = (0, rng)"
    by (simp add: coprime_count_def coprime_loop.simps)
  moreover have "buffon_count crossing 0 rng = (0, rng)"
    by (simp add: buffon_count_def buffon_loop.simps)
  ultimately show ?thesis
    using next_double_state [of rng] by blast
qed

end
